theory Spec2Isabelle
  imports Complex_Main "HOL-Library.Word" "HOL-Library.Sublist" "HOL-Library.Multiset"
begin

section \<open>The double values of decoupling\_core.cpp\<close>

text \<open>
  \<open>total\<close>, the kernel values and the results are C++ \<open>double\<close>s. A double is a finite
  real, one of the two infinities, or not-a-number. The two zeros are not told apart
  (the code never divides by a double that could be \<open>-0.0\<close>: every divisor is a
  converted \<open>int\<close>).

  Every finite operation of IEEE 754 is the exact real result, rounded. The rounding
  (to the nearest double, to an infinity on overflow) is the parameter \<open>rnd\<close> of the
  arithmetic, so that what is proved for every \<open>rnd\<close> holds for the rounding of the
  machine, and \<open>exact\<close> is the arithmetic without rounding.
\<close>

datatype double = Finite real | PInf | NInf | NaN

type_synonym rounding = "real \<Rightarrow> double"

definition exact :: rounding where
  "exact r = Finite r"

text \<open>
  A rounding that does nothing but overflow: exact within the range of the doubles, an
  infinity from \<open>2^1024\<close> on, where the rounding of IEEE 754 overflows too.
\<close>

definition overflow_only :: rounding where
  "overflow_only r = (if \<bar>r\<bar> < 2 ^ 1024 then Finite r else if 0 < r then PInf else NInf)"

text \<open>\<open>a + b\<close> on doubles.\<close>

fun dadd :: "rounding \<Rightarrow> double \<Rightarrow> double \<Rightarrow> double" where
  "dadd rnd (Finite a) (Finite b) = rnd (a + b)"
| "dadd rnd NaN b = NaN"
| "dadd rnd a NaN = NaN"
| "dadd rnd PInf NInf = NaN"
| "dadd rnd NInf PInf = NaN"
| "dadd rnd PInf b = PInf"
| "dadd rnd a PInf = PInf"
| "dadd rnd NInf b = NInf"
| "dadd rnd a NInf = NInf"

text \<open>
  \<open>total / count\<close>: the \<open>int\<close> is converted to a double (exactly, it has 32 bits) and
  divides the double. A zero divisor is \<open>+0.0\<close>: \<open>0.0 / 0\<close> is not-a-number and a
  nonzero finite dividend gives the infinity of its sign.
\<close>

fun ddiv :: "rounding \<Rightarrow> double \<Rightarrow> int \<Rightarrow> double" where
  "ddiv rnd NaN c = NaN"
| "ddiv rnd PInf c = (if c < 0 then NInf else PInf)"
| "ddiv rnd NInf c = (if c < 0 then PInf else NInf)"
| "ddiv rnd (Finite a) c =
     (if c = 0 then (if a = 0 then NaN else if 0 < a then PInf else NInf)
      else rnd (a / of_int c))"

section \<open>Failures, element reads and kernel calls\<close>

text \<open>
  The kernel is an R function called back from C++: it returns a double
  (\<open>as<double>\<close> of its value) or fails with an R error or a failed conversion, a value
  of type \<open>'e\<close>. Neither function of the file catches anything, so a failure of the
  kernel leaves both of them unchanged: \<open>KernelFailure e\<close>. The kernel is taken to be
  deterministic: what it does is a function of its two arguments.

  \<open>x[i]\<close> and \<open>y[j]\<close> are unchecked reads of an R list. A read at or beyond the length
  has no defined value; the model stops there with \<open>OutOfBounds\<close> and the index.
\<close>

datatype 'e failure = KernelFailure 'e | OutOfBounds nat

type_synonym ('a, 'e) kernel = "'a \<Rightarrow> 'a \<Rightarrow> 'e + double"

text \<open>
  The log of kernel invocations, as index pairs \<open>(i, j)\<close> in the order of the calls. It
  is not a variable of the source: it records what the source does, so that claims about
  the invocations can be stated. A run is the log together with how the run ended.
\<close>

type_synonym calls = "(nat \<times> nat) list"

type_synonym ('e, 'r) run = "calls \<times> ('e failure + 'r)"

definition elt :: "'a list \<Rightarrow> nat \<Rightarrow> 'e failure + 'a" where
  "elt xs i = (if i < length xs then Inr (xs ! i) else Inl (OutOfBounds i))"

text \<open>\<open>as<double>(kernel_function(x[i], y[j]))\<close>; the call is logged once it is made.\<close>

definition kernel_call ::
  "'a list \<Rightarrow> 'a list \<Rightarrow> ('a, 'e) kernel \<Rightarrow> nat \<Rightarrow> nat \<Rightarrow> calls \<Rightarrow> ('e, double) run" where
  "kernel_call x y kernel_function i j cs =
     (case elt x i of
        Inl f \<Rightarrow> (cs, Inl f)
      | Inr a \<Rightarrow>
          (case elt y j of
             Inl f \<Rightarrow> (cs, Inl f)
           | Inr b \<Rightarrow>
               (cs @ [(i, j)],
                case kernel_function a b of
                  Inl e \<Rightarrow> Inl (KernelFailure e)
                | Inr v \<Rightarrow> Inr v)))"

section \<open>compute\_decoupled\_sum\<close>

text \<open>
  The two accumulators of the function. \<open>count\<close> is a C++ \<open>int\<close>: 32 bits, signed.
  C++ leaves the overflow of \<open>count++\<close> undefined; the model takes the wrap-around of
  two's complement, which is what the compiled increment does. The word is read as a
  signed number (\<open>sint\<close>) where the source divides by it. The loop indices \<open>i\<close> and
  \<open>j\<close> never exceed \<open>n\<close>, the length of \<open>x\<close>, and are natural numbers; \<open>n\<close> is
  the length itself (\<open>int n = x.size()\<close> is exact for every list of fewer than
  \<open>2^31\<close> elements).
\<close>

record acc =
  total :: double
  count :: "32 word"

text \<open>The body of each inner loop: one kernel call, \<open>total += value\<close>, \<open>count++\<close>.\<close>

definition body ::
  "rounding \<Rightarrow> 'a list \<Rightarrow> 'a list \<Rightarrow> ('a, 'e) kernel \<Rightarrow> nat \<Rightarrow> nat \<Rightarrow> acc \<Rightarrow> calls
     \<Rightarrow> ('e, acc) run" where
  "body rnd x y kernel_function i j s cs =
     (case kernel_call x y kernel_function i j cs of
        (cs', Inl f) \<Rightarrow> (cs', Inl f)
      | (cs', Inr v) \<Rightarrow>
          (cs', Inr (s\<lparr>total := dadd rnd (total s) v, count := count s + 1\<rparr>)))"

text \<open>\<open>for (int j = i + 1; j < n; j++)\<close>, entered at \<open>j\<close>.\<close>

function sym_inner ::
  "rounding \<Rightarrow> 'a list \<Rightarrow> 'a list \<Rightarrow> ('a, 'e) kernel \<Rightarrow> nat \<Rightarrow> nat \<Rightarrow> nat \<Rightarrow> acc \<Rightarrow> calls
     \<Rightarrow> ('e, acc) run" where
  "sym_inner rnd x y kernel_function n i j s cs =
     (if j < n then
        (case body rnd x y kernel_function i j s cs of
           (cs', Inl f) \<Rightarrow> (cs', Inl f)
         | (cs', Inr s') \<Rightarrow> sym_inner rnd x y kernel_function n i (j + 1) s' cs')
      else (cs, Inr s))"
  by pat_completeness auto
termination
  by (relation "measure (\<lambda>(rnd, x, y, k, n, i, j, s, cs). n - j)") auto

text \<open>\<open>for (int i = 0; i < n; i++)\<close> of the symmetric branch, entered at \<open>i\<close>.\<close>

function sym_outer ::
  "rounding \<Rightarrow> 'a list \<Rightarrow> 'a list \<Rightarrow> ('a, 'e) kernel \<Rightarrow> nat \<Rightarrow> nat \<Rightarrow> acc \<Rightarrow> calls
     \<Rightarrow> ('e, acc) run" where
  "sym_outer rnd x y kernel_function n i s cs =
     (if i < n then
        (case sym_inner rnd x y kernel_function n i (i + 1) s cs of
           (cs', Inl f) \<Rightarrow> (cs', Inl f)
         | (cs', Inr s') \<Rightarrow> sym_outer rnd x y kernel_function n (i + 1) s' cs')
      else (cs, Inr s))"
  by pat_completeness auto
termination
  by (relation "measure (\<lambda>(rnd, x, y, k, n, i, s, cs). n - i)") auto

text \<open>\<open>for (int j = 0; j < n; j++) if (i != j)\<close>, entered at \<open>j\<close>.\<close>

function asym_inner ::
  "rounding \<Rightarrow> 'a list \<Rightarrow> 'a list \<Rightarrow> ('a, 'e) kernel \<Rightarrow> nat \<Rightarrow> nat \<Rightarrow> nat \<Rightarrow> acc \<Rightarrow> calls
     \<Rightarrow> ('e, acc) run" where
  "asym_inner rnd x y kernel_function n i j s cs =
     (if j < n then
        (if i \<noteq> j then
           (case body rnd x y kernel_function i j s cs of
              (cs', Inl f) \<Rightarrow> (cs', Inl f)
            | (cs', Inr s') \<Rightarrow> asym_inner rnd x y kernel_function n i (j + 1) s' cs')
         else asym_inner rnd x y kernel_function n i (j + 1) s cs)
      else (cs, Inr s))"
  by pat_completeness auto
termination
  by (relation "measure (\<lambda>(rnd, x, y, k, n, i, j, s, cs). n - j)") auto

text \<open>\<open>for (int i = 0; i < n; i++)\<close> of the asymmetric branch, entered at \<open>i\<close>.\<close>

function asym_outer ::
  "rounding \<Rightarrow> 'a list \<Rightarrow> 'a list \<Rightarrow> ('a, 'e) kernel \<Rightarrow> nat \<Rightarrow> nat \<Rightarrow> acc \<Rightarrow> calls
     \<Rightarrow> ('e, acc) run" where
  "asym_outer rnd x y kernel_function n i s cs =
     (if i < n then
        (case asym_inner rnd x y kernel_function n i 0 s cs of
           (cs', Inl f) \<Rightarrow> (cs', Inl f)
         | (cs', Inr s') \<Rightarrow> asym_outer rnd x y kernel_function n (i + 1) s' cs')
      else (cs, Inr s))"
  by pat_completeness auto
termination
  by (relation "measure (\<lambda>(rnd, x, y, k, n, i, s, cs). n - i)") auto

text \<open>
  The function: \<open>n = x.size()\<close>, \<open>total = 0.0\<close>, \<open>count = 0\<close>, the nested loop of the
  branch, and \<open>return total / count\<close> with no test of \<open>count\<close>.
\<close>

definition compute_decoupled_sum ::
  "rounding \<Rightarrow> 'a list \<Rightarrow> 'a list \<Rightarrow> ('a, 'e) kernel \<Rightarrow> bool \<Rightarrow> ('e, double) run" where
  "compute_decoupled_sum rnd x y kernel_function symmetric =
     (let n = length x;
          s0 = \<lparr>total = Finite 0, count = 0\<rparr>
      in if symmetric then
           (case sym_outer rnd x y kernel_function n 0 s0 [] of
              (cs, Inl f) \<Rightarrow> (cs, Inl f)
            | (cs, Inr s) \<Rightarrow> (cs, Inr (ddiv rnd (total s) (sint (count s)))))
         else
           (case asym_outer rnd x y kernel_function n 0 s0 [] of
              (cs, Inl f) \<Rightarrow> (cs, Inl f)
            | (cs, Inr s) \<Rightarrow> (cs, Inr (ddiv rnd (total s) (sint (count s))))))"

section \<open>compute\_multiple\_decoupled\_sums\<close>

text \<open>
  \<open>for (int b = 0; b < B; b++) results[b] = compute_decoupled_sum(x, y_list[b], ...)\<close>,
  entered at \<open>b\<close>. A failure of the call leaves the loop and the function.
\<close>

function batch_loop ::
  "rounding \<Rightarrow> 'a list \<Rightarrow> 'a list list \<Rightarrow> ('a, 'e) kernel \<Rightarrow> bool \<Rightarrow> nat \<Rightarrow> nat \<Rightarrow> double list
     \<Rightarrow> 'e failure + double list" where
  "batch_loop rnd x y_list kernel_function symmetric B b results =
     (if b < B then
        (case elt y_list b of
           Inl f \<Rightarrow> Inl f
         | Inr y \<Rightarrow>
             (case snd (compute_decoupled_sum rnd x y kernel_function symmetric) of
                Inl f \<Rightarrow> Inl f
              | Inr v \<Rightarrow>
                  batch_loop rnd x y_list kernel_function symmetric B (b + 1)
                    (results[b := v])))
      else Inr results)"
  by pat_completeness auto
termination
  by (relation "measure (\<lambda>(rnd, x, ys, k, sym, B, b, rs). B - b)") auto

text \<open>\<open>B = y_list.size()\<close>, \<open>NumericVector results(B)\<close> (filled with zeros), the loop.\<close>

definition compute_multiple_decoupled_sums ::
  "rounding \<Rightarrow> 'a list \<Rightarrow> 'a list list \<Rightarrow> ('a, 'e) kernel \<Rightarrow> bool \<Rightarrow> 'e failure + double list" where
  "compute_multiple_decoupled_sums rnd x y_list kernel_function symmetric =
     (let B = length y_list
      in batch_loop rnd x y_list kernel_function symmetric B 0 (replicate B (Finite 0)))"

section \<open>The enumerations of the specification\<close>

text \<open>
  The index pairs as the specification lists them: the upper triangle for the symmetric
  mode, all ordered pairs of distinct indices for the asymmetric mode, each with the
  outer index ascending and the inner index ascending. They follow the specification's
  words and are compared with the source below, loop by loop.
\<close>

definition sym_pairs :: "nat \<Rightarrow> calls" where
  "sym_pairs n = concat (map (\<lambda>i. map (Pair i) [i + 1..<n]) [0..<n])"

definition asym_pairs :: "nat \<Rightarrow> calls" where
  "asym_pairs n = concat (map (\<lambda>i. map (Pair i) (filter (\<lambda>j. i \<noteq> j) [0..<n])) [0..<n])"

definition index_pairs :: "bool \<Rightarrow> nat \<Rightarrow> calls" where
  "index_pairs symmetric n = (if symmetric then sym_pairs n else asym_pairs n)"

text \<open>The order of the enumeration: by the outer index, then by the inner index.\<close>

definition pair_less :: "nat \<times> nat \<Rightarrow> nat \<times> nat \<Rightarrow> bool" where
  "pair_less p q = (fst p < fst q \<or> (fst p = fst q \<and> snd p < snd q))"

text \<open>The sum of a list of doubles as each loop forms it: from \<open>0.0\<close>, left to right.\<close>

definition dsum :: "rounding \<Rightarrow> double list \<Rightarrow> double" where
  "dsum rnd vs = foldl (dadd rnd) (Finite 0) vs"

text \<open>The loop body run over a list of index pairs, in the order of the list.\<close>

fun run_pairs ::
  "rounding \<Rightarrow> 'a list \<Rightarrow> 'a list \<Rightarrow> ('a, 'e) kernel \<Rightarrow> calls \<Rightarrow> acc \<Rightarrow> calls
     \<Rightarrow> ('e, acc) run" where
  "run_pairs rnd x y k [] s cs = (cs, Inr s)"
| "run_pairs rnd x y k (p # ps) s cs =
     (case body rnd x y k (fst p) (snd p) s cs of
        (cs', Inl f) \<Rightarrow> (cs', Inl f)
      | (cs', Inr s') \<Rightarrow> run_pairs rnd x y k ps s' cs')"

text \<open>The last statement of \<open>compute_decoupled_sum\<close>, after either nested loop.\<close>

definition finish :: "rounding \<Rightarrow> ('e, acc) run \<Rightarrow> ('e, double) run" where
  "finish rnd r =
     (case r of
        (cs, Inl f) \<Rightarrow> (cs, Inl f)
      | (cs, Inr s) \<Rightarrow> (cs, Inr (ddiv rnd (total s) (sint (count s)))))"

text \<open>
  A rounding that leaves the integers of up to 53 bits unchanged, as the rounding of
  IEEE 754 doubles does: they are doubles already.
\<close>

definition exact_on_integers :: "rounding \<Rightarrow> bool" where
  "exact_on_integers rnd = (\<forall>m::int. \<bar>m\<bar> \<le> 2 ^ 53 \<longrightarrow> rnd (of_int m) = Finite (of_int m))"

text \<open>
  The results of a list of calls, in order: the values of all of them, or the first
  failure.
\<close>

fun collect :: "('e failure + double) list \<Rightarrow> 'e failure + double list" where
  "collect [] = Inr []"
| "collect (r # rs) =
     (case r of
        Inl f \<Rightarrow> Inl f
      | Inr v \<Rightarrow> (case collect rs of Inl f \<Rightarrow> Inl f | Inr vs \<Rightarrow> Inr (v # vs)))"

section \<open>Each loop visits its enumeration\<close>

declare sym_inner.simps [simp del] sym_outer.simps [simp del]
  asym_inner.simps [simp del] asym_outer.simps [simp del] batch_loop.simps [simp del]

lemma run_pairs_append:
  "run_pairs rnd x y k (ps @ qs) s cs =
     (case run_pairs rnd x y k ps s cs of
        (cs', Inl f) \<Rightarrow> (cs', Inl f)
      | (cs', Inr s') \<Rightarrow> run_pairs rnd x y k qs s' cs')"
  by (induction ps arbitrary: s cs) (auto split: prod.splits sum.splits)

lemma sym_inner_run:
  "sym_inner rnd x y k n i j s cs = run_pairs rnd x y k (map (Pair i) [j..<n]) s cs"
proof (induction rnd x y k n i j s cs rule: sym_inner.induct)
  case (1 rnd x y k n i j s cs)
  show ?case
  proof (cases "j < n")
    case True
    then have "[j..<n] = j # [j + 1..<n]" by (simp add: upt_rec)
    with True 1 show ?thesis
      by (subst sym_inner.simps) (auto split: prod.splits sum.splits)
  next
    case False
    then show ?thesis by (subst sym_inner.simps) simp
  qed
qed

lemma sym_outer_run:
  "sym_outer rnd x y k n i s cs =
     run_pairs rnd x y k (concat (map (\<lambda>i. map (Pair i) [i + 1..<n]) [i..<n])) s cs"
proof (induction rnd x y k n i s cs rule: sym_outer.induct)
  case (1 rnd x y k n i s cs)
  show ?case
  proof (cases "i < n")
    case True
    then have split: "[i..<n] = i # [i + 1..<n]" by (simp add: upt_rec)
    obtain cs' r where inner: "sym_inner rnd x y k n i (i + 1) s cs = (cs', r)"
      by (cases "sym_inner rnd x y k n i (i + 1) s cs")
    show ?thesis
    proof (cases r)
      case (Inl f)
      with True inner show ?thesis
        by (subst sym_outer.simps)
           (simp add: split run_pairs_append sym_inner_run [symmetric])
    next
      case (Inr s')
      with True inner "1" show ?thesis
        by (subst sym_outer.simps)
           (simp add: split run_pairs_append sym_inner_run [symmetric])
    qed
  next
    case False
    then show ?thesis by (subst sym_outer.simps) simp
  qed
qed

lemma asym_inner_run:
  "asym_inner rnd x y k n i j s cs =
     run_pairs rnd x y k (map (Pair i) (filter (\<lambda>j. i \<noteq> j) [j..<n])) s cs"
proof (induction rnd x y k n i j s cs rule: asym_inner.induct)
  case (1 rnd x y k n i j s cs)
  show ?case
  proof (cases "j < n")
    case True
    then have "[j..<n] = j # [j + 1..<n]" by (simp add: upt_rec)
    with True 1 show ?thesis
      by (subst asym_inner.simps) (auto split: prod.splits sum.splits)
  next
    case False
    then show ?thesis by (subst asym_inner.simps) simp
  qed
qed

lemma asym_outer_run:
  "asym_outer rnd x y k n i s cs =
     run_pairs rnd x y k
       (concat (map (\<lambda>i. map (Pair i) (filter (\<lambda>j. i \<noteq> j) [0..<n])) [i..<n])) s cs"
proof (induction rnd x y k n i s cs rule: asym_outer.induct)
  case (1 rnd x y k n i s cs)
  show ?case
  proof (cases "i < n")
    case True
    then have split: "[i..<n] = i # [i + 1..<n]" by (simp add: upt_rec)
    obtain cs' r where inner: "asym_inner rnd x y k n i 0 s cs = (cs', r)"
      by (cases "asym_inner rnd x y k n i 0 s cs")
    show ?thesis
    proof (cases r)
      case (Inl f)
      with True inner show ?thesis
        by (subst asym_outer.simps)
           (simp add: split run_pairs_append asym_inner_run [symmetric])
    next
      case (Inr s')
      with True inner "1" show ?thesis
        by (subst asym_outer.simps)
           (simp add: split run_pairs_append asym_inner_run [symmetric])
    qed
  next
    case False
    then show ?thesis by (subst asym_outer.simps) simp
  qed
qed


lemma compute_decoupled_sum_run:
  "compute_decoupled_sum rnd x y k symmetric =
     finish rnd (run_pairs rnd x y k (index_pairs symmetric (length x))
       \<lparr>total = Finite 0, count = 0\<rparr> [])"
  by (simp add: compute_decoupled_sum_def finish_def index_pairs_def sym_pairs_def
      asym_pairs_def sym_outer_run asym_outer_run Let_def)

lemma body_ok:
  assumes "i < length x" and "j < length y" and "k (x ! i) (y ! j) = Inr v"
  shows "body rnd x y k i j s cs =
    (cs @ [(i, j)], Inr (s\<lparr>total := dadd rnd (total s) v, count := count s + 1\<rparr>))"
  using assms by (simp add: body_def kernel_call_def elt_def)

lemma body_fail:
  assumes "i < length x" and "j < length y" and "k (x ! i) (y ! j) = Inl e"
  shows "body rnd x y k i j s cs = (cs @ [(i, j)], Inl (KernelFailure e))"
  using assms by (simp add: body_def kernel_call_def elt_def)

lemma run_pairs_ok:
  assumes "\<forall>p\<in>set ps. fst p < length x \<and> snd p < length y
             \<and> k (x ! fst p) (y ! snd p) = Inr (v p)"
  shows "run_pairs rnd x y k ps s cs =
    (cs @ ps, Inr \<lparr>total = foldl (dadd rnd) (total s) (map v ps),
                   count = count s + of_nat (length ps)\<rparr>)"
  using assms
proof (induction ps arbitrary: s cs)
  case Nil
  then show ?case by simp
next
  case (Cons p ps)
  then have b: "body rnd x y k (fst p) (snd p) s cs =
      (cs @ [p], Inr (s\<lparr>total := dadd rnd (total s) (v p), count := count s + 1\<rparr>))"
    by (simp add: body_ok)
  from Cons.prems have "\<forall>q\<in>set ps. fst q < length x \<and> snd q < length y
             \<and> k (x ! fst q) (y ! snd q) = Inr (v q)" by simp
  from Cons.IH [OF this] b show ?case by (simp add: add.assoc)
qed

lemma run_pairs_fail:
  assumes "\<forall>p\<in>set ps. fst p < length x \<and> snd p < length y
             \<and> k (x ! fst p) (y ! snd p) = Inr (v p)"
    and "i < length x" and "j < length y" and "k (x ! i) (y ! j) = Inl e"
  shows "run_pairs rnd x y k (ps @ (i, j) # qs) s cs =
    (cs @ ps @ [(i, j)], Inl (KernelFailure e))"
  using assms(2-) by (simp add: run_pairs_append run_pairs_ok [OF assms(1)] body_fail)

lemma run_pairs_prefix:
  "\<exists>ps'. prefix ps' ps \<and> fst (run_pairs rnd x y k ps s cs) = cs @ ps'"
proof (induction ps arbitrary: s cs)
  case Nil
  then show ?case by simp
next
  case (Cons p ps)
  obtain cs' r where b: "body rnd x y k (fst p) (snd p) s cs = (cs', r)"
    by (cases "body rnd x y k (fst p) (snd p) s cs")
  then have cs': "cs' = cs \<or> cs' = cs @ [p]"
    by (auto simp: body_def kernel_call_def split: sum.splits prod.splits)
  show ?case
  proof (cases r)
    case (Inl f)
    with b cs' show ?thesis
      by (auto intro: exI [of _ "[]"] exI [of _ "[p]"])
  next
    case (Inr s')
    with b have "cs' = cs @ [p]"
      by (auto simp: body_def kernel_call_def split: sum.splits prod.splits)
    moreover from Cons.IH [of s' cs'] obtain ps' where
      "prefix ps' ps" "fst (run_pairs rnd x y k ps s' cs') = cs' @ ps'" by blast
    ultimately show ?thesis using b Inr
      by (auto intro!: exI [of _ "p # ps'"])
  qed
qed

lemma run_pairs_in_bounds:
  assumes "\<forall>p\<in>set ps. fst p < length x \<and> snd p < length y"
  shows "snd (run_pairs rnd x y k ps s cs) \<noteq> Inl (OutOfBounds m)"
  using assms
proof (induction ps arbitrary: s cs)
  case Nil
  then show ?case by simp
next
  case (Cons p ps)
  then show ?case
    by (cases "k (x ! fst p) (y ! snd p)") (simp_all add: body_ok body_fail)
qed

lemma run_pairs_cong_y:
  assumes "\<forall>p\<in>set ps. (elt y (snd p) :: 'e failure + 'a) = elt y' (snd p)"
  shows "run_pairs rnd x y (k :: ('a, 'e) kernel) ps s cs = run_pairs rnd x y' k ps s cs"
  using assms
proof (induction ps arbitrary: s cs)
  case Nil
  then show ?case by simp
next
  case (Cons p ps)
  then have e: "(elt y (snd p) :: 'e failure + 'a) = elt y' (snd p)" by simp
  have "body rnd x y k (fst p) (snd p) s cs = body rnd x y' k (fst p) (snd p) s cs"
    unfolding body_def kernel_call_def e by (rule refl)
  with Cons show ?case by (simp split: prod.splits sum.splits)
qed

section \<open>Facts about the enumerations\<close>

lemma set_sym_pairs: "set (sym_pairs n) = {(i, j). i < j \<and> j < n}"
  by (fastforce simp: sym_pairs_def)

lemma set_asym_pairs: "set (asym_pairs n) = {(i, j). i < n \<and> j < n \<and> i \<noteq> j}"
  by (auto simp: asym_pairs_def)

lemma sorted_rows:
  assumes "sorted_wrt (<) rows" and "\<And>i. sorted_wrt (<) (cols i)"
  shows "sorted_wrt pair_less (concat (map (\<lambda>i. map (Pair i) (cols i)) rows))"
  using assms(1)
proof (induction rows)
  case Nil
  then show ?case by simp
next
  case (Cons i rows)
  have "sorted_wrt pair_less (map (Pair i) (cols i))"
    using assms(2) [of i] by (simp add: sorted_wrt_map pair_less_def)
  moreover from Cons have "sorted_wrt pair_less (concat (map (\<lambda>i. map (Pair i) (cols i)) rows))"
    by simp
  moreover from Cons.prems have "\<forall>p\<in>set (map (Pair i) (cols i)).
      \<forall>q\<in>set (concat (map (\<lambda>i. map (Pair i) (cols i)) rows)). pair_less p q"
    by (auto simp: pair_less_def)
  ultimately show ?case
    by (simp only: list.map concat.simps sorted_wrt_append)
qed

lemma sorted_sym_pairs: "sorted_wrt pair_less (sym_pairs n)"
  unfolding sym_pairs_def by (rule sorted_rows) simp_all

lemma sorted_asym_pairs: "sorted_wrt pair_less (asym_pairs n)"
  unfolding asym_pairs_def by (rule sorted_rows) (simp_all add: sorted_wrt_filter)

lemma sorted_pair_less_distinct: "sorted_wrt pair_less ps \<Longrightarrow> distinct ps"
  by (induction ps) (auto simp: pair_less_def)

lemma distinct_sym_pairs: "distinct (sym_pairs n)"
  by (rule sorted_pair_less_distinct) (rule sorted_sym_pairs)

lemma distinct_asym_pairs: "distinct (asym_pairs n)"
  by (rule sorted_pair_less_distinct) (rule sorted_asym_pairs)

lemma length_sym_pairs: "length (sym_pairs n) = n * (n - 1) div 2"
proof -
  have "length (sym_pairs n) = sum_list (map (\<lambda>i. n - Suc i) [0..<n])"
    by (simp add: sym_pairs_def length_concat comp_def)
  also have "\<dots> = (\<Sum>i<n. n - Suc i)"
    by (simp add: interv_sum_list_conv_sum_set_nat atLeast0LessThan)
  also have "\<dots> = (\<Sum>i<n. i)"
    by (rule sum.nat_diff_reindex)
  also have "\<dots> = n * (n - 1) div 2"
    using Sum_Ico_nat [of 0 n] by (simp add: atLeast0LessThan)
  finally show ?thesis .
qed

lemma upt_split_at: "i < n \<Longrightarrow> [0..<n] = [0..<i] @ i # [i + 1..<n]"
  using upt_add_eq_append [of 0 i "n - i"] by (simp add: upt_rec [of i n])

lemma filter_neq_upt:
  assumes "i < n"
  shows "filter (\<lambda>j. i \<noteq> j) [0..<n] = [0..<i] @ [i + 1..<n]"
proof -
  have "[0..<n] = [0..<i] @ i # [i + 1..<n]"
    using assms by (rule upt_split_at)
  then show ?thesis by (auto simp: filter_id_conv filter_empty_conv)
qed

lemma length_asym_pairs: "length (asym_pairs n) = n * (n - 1)"
proof -
  have "map (\<lambda>i. length (filter (\<lambda>j. i \<noteq> j) [0..<n])) [0..<n] = map (\<lambda>i. n - 1) [0..<n]"
    by (rule map_cong) (simp_all add: filter_neq_upt)
  then have "length (asym_pairs n) = sum_list (map (\<lambda>i. n - 1) [0..<n])"
    by (simp only: asym_pairs_def length_concat map_map comp_def length_map)
  also have "\<dots> = n * (n - 1)"
    by (simp add: sum_list_triv)
  finally show ?thesis .
qed

lemma sint_count:
  assumes "m < 2 ^ 31"
  shows "sint (of_nat m :: 32 word) = int m"
proof -
  from assms have "int m < int (2 ^ 31)" by (simp only: of_nat_less_iff)
  then have "int m < 2 ^ 31" by simp
  then have "signed_take_bit 31 (int m) = int m"
    by (intro signed_take_bit_int_eq_self) simp_all
  then show ?thesis by (simp add: signed_of_nat)
qed

lemma index_pairs_bounds:
  "p \<in> set (index_pairs symmetric n) \<Longrightarrow> fst p < n \<and> snd p < n \<and> fst p \<noteq> snd p"
  by (auto simp: index_pairs_def set_sym_pairs set_asym_pairs split: if_splits)

lemma index_pairs_degenerate:
  assumes "n < 2"
  shows "index_pairs symmetric n = []"
proof -
  from assms have "{(i, j). i < j \<and> j < n} = {}" and "{(i, j). i < n \<and> j < n \<and> i \<noteq> j} = {}"
    by auto
  then have "set (sym_pairs n) = {}" and "set (asym_pairs n) = {}"
    by (simp_all only: set_sym_pairs set_asym_pairs)
  then show ?thesis by (simp add: index_pairs_def)
qed

lemma sym_pairs_3: "sym_pairs (Suc (Suc (Suc 0))) = [(0, 1), (0, 2), (1, 2)]"
  by (simp add: sym_pairs_def upt_rec)

lemma sym_pairs_2: "sym_pairs (Suc (Suc 0)) = [(0, 1)]"
  by (simp add: sym_pairs_def upt_rec)

section \<open>A kernel that always returns\<close>

lemma compute_total_kernel:
  assumes "length x \<le> length y"
  shows "compute_decoupled_sum rnd x y (\<lambda>a b. Inr (kv a b) :: 'e + double) symmetric =
     (index_pairs symmetric (length x),
      Inr (ddiv rnd
        (dsum rnd (map (\<lambda>p. kv (x ! fst p) (y ! snd p)) (index_pairs symmetric (length x))))
        (sint (of_nat (length (index_pairs symmetric (length x))) :: 32 word))))"
proof -
  let ?v = "\<lambda>p. kv (x ! fst p) (y ! snd p)"
  have "run_pairs rnd x y (\<lambda>a b. Inr (kv a b) :: 'e + double)
          (index_pairs symmetric (length x))
          \<lparr>total = Finite 0, count = 0\<rparr> [] =
        ([] @ index_pairs symmetric (length x),
         Inr \<lparr>total = foldl (dadd rnd) (total \<lparr>total = Finite 0, count = 0\<rparr>)
                       (map ?v (index_pairs symmetric (length x))),
              count = count \<lparr>total = Finite 0, count = 0\<rparr>
                       + of_nat (length (index_pairs symmetric (length x)))\<rparr>)"
    using assms by (intro run_pairs_ok) (auto dest: index_pairs_bounds)
  then show ?thesis
    by (simp add: compute_decoupled_sum_run finish_def dsum_def)
qed

lemma foldl_ones:
  "foldl (dadd exact) (Finite a) (map (\<lambda>p. Finite 1) ps) = Finite (a + real (length ps))"
  by (induction ps arbitrary: a) (simp_all add: exact_def)

lemma dsum_ones: "dsum exact (map (\<lambda>p. Finite 1) ps) = Finite (real (length ps))"
  by (simp add: dsum_def foldl_ones)

section \<open>Fewer than two elements\<close>

lemma degenerate_run:
  assumes "length x < 2"
  shows "compute_decoupled_sum rnd x y k symmetric = ([], Inr NaN)"
  using assms by (simp add: compute_decoupled_sum_run index_pairs_degenerate finish_def)

text \<open>
  C1, as the code has it. With fewer than two elements in \<open>x\<close>, in either mode and
  whatever \<open>y\<close>, the kernel and the rounding are, \<open>compute_decoupled_sum\<close> calls the
  kernel for no pair, divides \<open>total = 0.0\<close> by \<open>count = 0\<close> and returns not-a-number.
  It does not fail: the source has no test of \<open>count\<close> and no error of its own.
\<close>

theorem degenerate_returns_nan:
  "length x < 2 \<Longrightarrow> compute_decoupled_sum rnd x y kernel_function symmetric = ([], Inr NaN)"
  by (rule degenerate_run)

theorem degenerate_returns_nan_witness:
  "length [1::int] < 2 \<and>
   compute_decoupled_sum exact [1::int] [10]
     (\<lambda>a b. Inr (Finite (of_int (a * b))) :: string + double) False = ([], Inr NaN)"
  using degenerate_returns_nan [of "[1::int]" exact "[10]"
      "\<lambda>a b. Inr (Finite (of_int (a * b))) :: string + double" False]
  by simp

text \<open>
  C1 as the specification states it (an explicit \<open>InsufficientPairs\<close> error, never
  not-a-number) fails on Example 3 of the specification, \<open>X = [1]\<close>, \<open>Y = [10]\<close>: the
  call returns, and what it returns is not-a-number.
\<close>

theorem insufficient_pairs_counterexample:
  "compute_decoupled_sum exact [1::int] [10]
     (\<lambda>a b. Inr (Finite (of_int (a + b))) :: string + double) True = ([], Inr NaN)"
  by (simp add: compute_decoupled_sum_run index_pairs_def sym_pairs_def finish_def)

section \<open>Example 1 of the specification\<close>

text \<open>
  C10. For \<open>X = [1, 2, 3]\<close>, \<open>Y = [10, 20, 30]\<close> and the kernel \<open>a + b\<close>, the symmetric
  mode calls the kernel at exactly the pairs \<open>(0, 1)\<close>, \<open>(0, 2)\<close>, \<open>(1, 2)\<close>, in this
  order; the kernel values there are 21, 31 and 32, their sum is 84, and the result is
  \<open>84 / 3 = 28\<close>. This holds for every rounding that is exact on integers, since every
  intermediate value is a small integer.
\<close>

theorem example_symmetric:
  assumes "exact_on_integers rnd"
  shows "compute_decoupled_sum rnd [1, 2, 3] [10, 20, 30]
           (\<lambda>a b. Inr (Finite (of_int (a + b)))) True
         = ([(0, 1), (0, 2), (1, 2)], Inr (Finite 28))
       \<and> map (\<lambda>(i, j). Finite (of_int ([1, 2, 3] ! i + [10, 20, 30] ! j)))
           [(0, 1), (0, 2), (1, 2)] = [Finite 21, Finite 31, Finite 32]
       \<and> dsum rnd [Finite 21, Finite 31, Finite 32] = Finite 84
       \<and> ddiv rnd (Finite 84) 3 = Finite 28"
proof -
  have r: "rnd (of_int m) = Finite (of_int m)" if "\<bar>m\<bar> \<le> 100" for m :: int
  proof -
    from that have "\<bar>m\<bar> \<le> 2 ^ 53" by simp
    with assms show ?thesis by (simp add: exact_on_integers_def)
  qed
  have "rnd 21 = Finite 21" "rnd 52 = Finite 52" "rnd 84 = Finite 84" "rnd 28 = Finite 28"
    using r [of 21] r [of 52] r [of 84] r [of 28] by simp_all
  then show ?thesis
    by (simp add: compute_decoupled_sum_run index_pairs_def sym_pairs_3 finish_def
        body_def kernel_call_def elt_def dsum_def)
qed

theorem example_symmetric_witness:
  "compute_decoupled_sum exact [1, 2, 3] [10, 20, 30]
           (\<lambda>a b. Inr (Finite (of_int (a + b))) :: string + double) True
         = ([(0, 1), (0, 2), (1, 2)], Inr (Finite 28))"
proof -
  have e: "exact_on_integers exact" by (simp add: exact_on_integers_def exact_def)
  have "compute_decoupled_sum exact [1, 2, 3] [10, 20, 30]
           (\<lambda>a b. Inr (Finite (of_int (a + b))) :: string + double) True
         = ([(0, 1), (0, 2), (1, 2)], Inr (Finite 28))"
    by (rule example_symmetric [OF e, THEN conjunct1])
  then show ?thesis .
qed

section \<open>The symmetric mode\<close>

text \<open>
  For \<open>x\<close> and \<open>y\<close> of equal length \<open>n \<ge> 2\<close> and a kernel that returns a double at
  every pair, the symmetric mode calls the kernel exactly at the pairs of
  \<open>sym_pairs n\<close>: each pair \<open>(i, j)\<close> with \<open>i < j < n\<close> once, \<open>n (n - 1) / 2\<close> calls in
  all. While this number is below \<open>2^31\<close>, the result is the sum of the kernel values,
  added in the order of the calls, divided by \<open>n (n - 1) / 2\<close>: there the code does what
  its comment says, "divide by the number of unique pairs".
\<close>

lemma symmetric_mean:
  assumes "length x = n" and "length y = n" and "2 \<le> n" and "n * (n - 1) div 2 < 2 ^ 31"
  shows "compute_decoupled_sum rnd x y (\<lambda>a b. Inr (kf a b)) True =
           (sym_pairs n,
            Inr (ddiv rnd (dsum rnd (map (\<lambda>(i, j). kf (x ! i) (y ! j)) (sym_pairs n)))
                   (int (n * (n - 1) div 2))))
         \<and> distinct (sym_pairs n)
         \<and> set (sym_pairs n) = {(i, j). i < j \<and> j < n}
         \<and> length (sym_pairs n) = n * (n - 1) div 2"
proof -
  have "sint (of_nat (length (sym_pairs n)) :: 32 word) = int (n * (n - 1) div 2)"
    using assms(4) by (simp add: length_sym_pairs sint_count)
  moreover have "(\<lambda>p. kf (x ! fst p) (y ! snd p)) = (\<lambda>(i, j). kf (x ! i) (y ! j))"
    by (simp add: fun_eq_iff)
  ultimately show ?thesis
    using assms(1,2) compute_total_kernel [of x y rnd kf True]
    by (simp add: index_pairs_def distinct_sym_pairs set_sym_pairs length_sym_pairs)
qed

lemma symmetric_mean_example:
  "length [1, 2, 3 :: int] = 3 \<and> length [10, 20, 30 :: int] = 3 \<and> (2::nat) \<le> 3
   \<and> (3::nat) * (3 - 1) div 2 < 2 ^ 31
   \<and> compute_decoupled_sum exact [1, 2, 3] [10, 20, 30]
         (\<lambda>a b. Inr (Finite (of_int (a - b))) :: string + double) True =
       ([(0, 1), (0, 2), (1, 2)], Inr (Finite (- (76 / 3))))"
proof -
  have "compute_decoupled_sum exact [1, 2, 3] [10, 20, 30]
         (\<lambda>a b. Inr (Finite (of_int (a - b))) :: string + double) True =
       (sym_pairs 3,
        Inr (ddiv exact
          (dsum exact (map (\<lambda>(i, j). Finite (of_int ([1, 2, 3] ! i - [10, 20, 30] ! j)))
             (sym_pairs 3)))
          (int (3 * (3 - 1) div 2))))"
    by (rule symmetric_mean [of "[1, 2, 3]" 3 "[10, 20, 30]" exact
          "\<lambda>a b. Finite (of_int (a - b))", THEN conjunct1]) simp_all
  then show ?thesis
    by (simp add: sym_pairs_def upt_rec dsum_def exact_def)
qed

text \<open>
  C2. The claim is that for every \<open>n \<ge> 2\<close> the symmetric mode returns the sum of the
  kernel values divided by \<open>n (n - 1) / 2\<close>. The code does not, where \<open>int count\<close>
  overflows. With 65537 elements there are \<open>2147516416 > 2^31 - 1\<close> pairs and the kernel
  is constantly 1: the sum of the kernel values divided by the number of pairs is 1 (the
  second statement), but \<open>count\<close> has wrapped around to \<open>-2147450880\<close> and the function
  returns \<open>-65537 / 65535\<close> (the first statement).
\<close>

theorem symmetric_count_overflow:
  "snd (compute_decoupled_sum exact (replicate 65537 (0::int)) (replicate 65537 0)
         (\<lambda>a b. Inr (Finite 1) :: string + double) True) = Inr (Finite (- (65537 / 65535)))
   \<and> ddiv exact (dsum exact (map (\<lambda>(i, j). Finite 1) (sym_pairs 65537)))
        (int (65537 * (65537 - 1) div 2)) = Finite 1"
proof -
  have l: "length (sym_pairs 65537) = 2147516416"
    by (simp add: length_sym_pairs)
  have c: "sint (of_nat 2147516416 :: 32 word) = - 2147450880"
    by simp
  have "(\<lambda>(i :: nat, j :: nat). Finite 1) = (\<lambda>p. Finite 1)"
    by (simp add: fun_eq_iff)
  then have d: "dsum exact (map (\<lambda>(i, j). Finite 1) (sym_pairs 65537)) = Finite 2147516416"
    by (simp only: dsum_ones l) simp
  have "snd (compute_decoupled_sum exact (replicate 65537 (0::int)) (replicate 65537 0)
         (\<lambda>a b. Inr (Finite 1) :: string + double) True) = Inr (Finite (- (65537 / 65535)))"
    by (simp add: compute_total_kernel index_pairs_def dsum_ones l c exact_def)
  moreover have "ddiv exact (dsum exact (map (\<lambda>(i, j). Finite 1) (sym_pairs 65537)))
        (int (65537 * (65537 - 1) div 2)) = Finite 1"
    by (simp add: d exact_def)
  ultimately show ?thesis by (rule conjI)
qed

section \<open>The asymmetric mode\<close>

text \<open>
  For \<open>x\<close> and \<open>y\<close> of equal length \<open>n \<ge> 2\<close> and a kernel that returns a double at
  every pair, the asymmetric mode calls the kernel exactly at the pairs of
  \<open>asym_pairs n\<close>: each ordered pair \<open>(i, j)\<close> with \<open>i, j < n\<close> and \<open>i \<noteq> j\<close> once,
  \<open>n (n - 1)\<close> calls in all. While this number is below \<open>2^31\<close>, the result is the sum
  of the kernel values, added in the order of the calls, divided by \<open>n (n - 1)\<close>.
\<close>

lemma asymmetric_mean:
  assumes "length x = n" and "length y = n" and "2 \<le> n" and "n * (n - 1) < 2 ^ 31"
  shows "compute_decoupled_sum rnd x y (\<lambda>a b. Inr (kf a b)) False =
           (asym_pairs n,
            Inr (ddiv rnd (dsum rnd (map (\<lambda>(i, j). kf (x ! i) (y ! j)) (asym_pairs n)))
                   (int (n * (n - 1)))))
         \<and> distinct (asym_pairs n)
         \<and> set (asym_pairs n) = {(i, j). i < n \<and> j < n \<and> i \<noteq> j}
         \<and> length (asym_pairs n) = n * (n - 1)"
proof -
  have "sint (of_nat (length (asym_pairs n)) :: 32 word) = int (n * (n - 1))"
    using assms(4) by (simp only: length_asym_pairs sint_count)
  moreover have "(\<lambda>p. kf (x ! fst p) (y ! snd p)) = (\<lambda>(i, j). kf (x ! i) (y ! j))"
    by (simp add: fun_eq_iff)
  ultimately show ?thesis
    using assms(1,2) compute_total_kernel [of x y rnd kf False]
    by (simp add: index_pairs_def distinct_asym_pairs set_asym_pairs length_asym_pairs)
qed

lemma asymmetric_mean_example:
  "length [1, 2, 3 :: int] = 3 \<and> length [10, 20, 30 :: int] = 3 \<and> (2::nat) \<le> 3
   \<and> (3::nat) * (3 - 1) < 2 ^ 31
   \<and> compute_decoupled_sum exact [1, 2, 3] [10, 20, 30]
         (\<lambda>a b. Inr (Finite (of_int (a + b))) :: string + double) False =
       ([(0, 1), (0, 2), (1, 0), (1, 2), (2, 0), (2, 1)], Inr (Finite 22))"
proof -
  have "compute_decoupled_sum exact [1, 2, 3] [10, 20, 30]
         (\<lambda>a b. Inr (Finite (of_int (a + b))) :: string + double) False =
       (asym_pairs 3,
        Inr (ddiv exact
          (dsum exact (map (\<lambda>(i, j). Finite (of_int ([1, 2, 3] ! i + [10, 20, 30] ! j)))
             (asym_pairs 3)))
          (int (3 * (3 - 1)))))"
    by (rule asymmetric_mean [of "[1, 2, 3]" 3 "[10, 20, 30]" exact
          "\<lambda>a b. Finite (of_int (a + b))", THEN conjunct1]) simp_all
  then show ?thesis
    by (simp add: asym_pairs_def upt_rec dsum_def exact_def)
qed

text \<open>
  C3. The claim is that for every \<open>n \<ge> 2\<close> the asymmetric mode returns the sum of the
  kernel values divided by \<open>n (n - 1)\<close>. The code does not, where \<open>int count\<close>
  overflows. With 46342 elements there are \<open>2147534622 > 2^31 - 1\<close> ordered pairs and the
  kernel is constantly 1: the sum of the kernel values divided by the number of pairs is
  1 (the second statement), but \<open>count\<close> has wrapped around to \<open>-2147432674\<close> and the
  function returns a negative number (the first statement).
\<close>

theorem asymmetric_count_overflow:
  "snd (compute_decoupled_sum exact (replicate 46342 (0::int)) (replicate 46342 0)
         (\<lambda>a b. Inr (Finite 1) :: string + double) False)
     = Inr (Finite (- (1073767311 / 1073716337)))
   \<and> ddiv exact (dsum exact (map (\<lambda>(i, j). Finite 1) (asym_pairs 46342)))
        (int (46342 * (46342 - 1))) = Finite 1"
proof -
  have l: "length (asym_pairs 46342) = 2147534622"
    by (simp add: length_asym_pairs)
  have c: "sint (of_nat 2147534622 :: 32 word) = - 2147432674"
    by simp
  have "(\<lambda>(i :: nat, j :: nat). Finite 1) = (\<lambda>p. Finite 1)"
    by (simp add: fun_eq_iff)
  then have d: "dsum exact (map (\<lambda>(i, j). Finite 1) (asym_pairs 46342)) = Finite 2147534622"
    by (simp only: dsum_ones l) simp
  have "snd (compute_decoupled_sum exact (replicate 46342 (0::int)) (replicate 46342 0)
         (\<lambda>a b. Inr (Finite 1) :: string + double) False)
      = Inr (Finite (- (1073767311 / 1073716337)))"
    by (simp add: compute_total_kernel index_pairs_def dsum_ones l c exact_def)
  moreover have "ddiv exact (dsum exact (map (\<lambda>(i, j). Finite 1) (asym_pairs 46342)))
        (int (46342 * (46342 - 1))) = Finite 1"
    by (simp add: d exact_def)
  ultimately show ?thesis by (rule conjI)
qed

section \<open>The order of the kernel calls\<close>

lemma fst_finish: "fst (finish rnd r) = fst r"
  by (cases r) (simp add: finish_def split: sum.splits)

lemma snd_finish_oob: "snd (finish rnd r) = Inl f \<longleftrightarrow> snd r = Inl f"
  by (cases r) (simp add: finish_def split: sum.splits)

lemma calls_prefix:
  "prefix (fst (compute_decoupled_sum rnd x y k symmetric)) (index_pairs symmetric (length x))"
  using run_pairs_prefix [of "index_pairs symmetric (length x)" rnd x y k
      "\<lparr>total = Finite 0, count = 0\<rparr>" "[]"]
  by (auto simp: compute_decoupled_sum_run fst_finish)

lemma calls_complete:
  assumes "length x \<le> length y"
    and "\<forall>p\<in>set (index_pairs symmetric (length x)). \<exists>v. k (x ! fst p) (y ! snd p) = Inr v"
  shows "fst (compute_decoupled_sum rnd x y k symmetric) = index_pairs symmetric (length x)"
proof -
  from bchoice [OF assms(2)] obtain v where
    "\<forall>p\<in>set (index_pairs symmetric (length x)). k (x ! fst p) (y ! snd p) = Inr (v p)"
    by blast
  with assms(1) have "\<forall>p\<in>set (index_pairs symmetric (length x)).
      fst p < length x \<and> snd p < length y \<and> k (x ! fst p) (y ! snd p) = Inr (v p)"
    by (auto dest: index_pairs_bounds)
  from run_pairs_ok [OF this] show ?thesis
    by (simp add: compute_decoupled_sum_run fst_finish)
qed

text \<open>
  C9. For \<open>x\<close> and \<open>y\<close> of equal length \<open>n\<close> and either mode, the kernel is called
  along the enumeration of the mode, from its start: the calls are a prefix of
  \<open>index_pairs symmetric n\<close>, and all of it when no call fails. The enumeration
  is ascending in the outer index and, for equal outer index, in the inner index
  (\<open>sorted_wrt pair_less\<close>), and holds exactly the pairs of the mode: \<open>j > i\<close> in the
  symmetric mode, \<open>j \<noteq> i\<close> in the asymmetric mode. The enumeration depends on nothing
  but \<open>n\<close> and the mode, and the model is a function: equal inputs give the same calls
  in the same order.
\<close>

theorem enumeration_order:
  assumes "length x = n" and "length y = n"
  shows "prefix (fst (compute_decoupled_sum rnd x y kernel_function symmetric))
           (index_pairs symmetric n)
       \<and> ((\<forall>p\<in>set (index_pairs symmetric n).
              \<exists>v. kernel_function (x ! fst p) (y ! snd p) = Inr v)
            \<longrightarrow> fst (compute_decoupled_sum rnd x y kernel_function symmetric)
                  = index_pairs symmetric n)
       \<and> sorted_wrt pair_less (index_pairs symmetric n)
       \<and> set (index_pairs symmetric n) =
           (if symmetric then {(i, j). i < j \<and> j < n}
            else {(i, j). i < n \<and> j < n \<and> i \<noteq> j})"
proof -
  have "prefix (fst (compute_decoupled_sum rnd x y kernel_function symmetric))
           (index_pairs symmetric n)"
    using calls_prefix [of rnd x y kernel_function symmetric] assms(1) by simp
  moreover have "fst (compute_decoupled_sum rnd x y kernel_function symmetric)
                  = index_pairs symmetric n"
    if "\<forall>p\<in>set (index_pairs symmetric n).
              \<exists>v. kernel_function (x ! fst p) (y ! snd p) = Inr v"
    using calls_complete [of x y symmetric kernel_function rnd] that assms by simp
  moreover have "sorted_wrt pair_less (index_pairs symmetric n)"
    by (simp add: index_pairs_def sorted_sym_pairs sorted_asym_pairs)
  moreover have "set (index_pairs symmetric n) =
           (if symmetric then {(i, j). i < j \<and> j < n}
            else {(i, j). i < n \<and> j < n \<and> i \<noteq> j})"
    by (simp add: index_pairs_def set_sym_pairs set_asym_pairs)
  ultimately show ?thesis by blast
qed

theorem enumeration_order_witness:
  "length [1, 2, 3 :: int] = 3 \<and> length [10, 20, 30 :: int] = 3
   \<and> fst (compute_decoupled_sum exact [1, 2, 3] [10, 20, 30]
         (\<lambda>a b. Inr (Finite (of_int (a + b))) :: string + double) False)
       = [(0, 1), (0, 2), (1, 0), (1, 2), (2, 0), (2, 1)]
   \<and> sorted_wrt pair_less [(0, 1), (0, 2), (1, 0), (1, 2), (2, 0), (2, 1)]"
proof -
  have ip: "index_pairs False 3 = [(0, 1), (0, 2), (1, 0), (1, 2), (2, 0), (2, 1)]"
    by (simp add: index_pairs_def asym_pairs_def upt_rec)
  have h: "\<forall>p\<in>set (index_pairs False 3).
         \<exists>v. (\<lambda>a b. Inr (Finite (of_int (a + b))) :: string + double)
                ([1, 2, 3] ! fst p) ([10, 20, 30] ! snd p) = Inr v"
    by simp
  from enumeration_order [of "[1, 2, 3]" 3 "[10, 20, 30]" exact
      "\<lambda>a b. Inr (Finite (of_int (a + b))) :: string + double" False] h
  show ?thesis by (simp add: ip)
qed

section \<open>Reads of the second collection\<close>

lemma elt_take: "j < n \<Longrightarrow> n \<le> length y \<Longrightarrow> elt (take n y) j = elt y j"
  by (simp add: elt_def)

text \<open>
  C8. Both loop bounds are the length of \<open>x\<close>: the calls are a prefix of the
  enumeration for \<open>length x\<close>, whatever \<open>y\<close> is. When \<open>y\<close> is at least as long as \<open>x\<close>,
  no read is out of bounds, every index of a call is below \<open>length x\<close>, and the
  elements of \<open>y\<close> from index \<open>length x\<close> on are never read: the run (calls and result)
  is the run on \<open>y\<close> cut to the length of \<open>x\<close>.
\<close>

theorem reads_within_length_of_x:
  fixes kernel_function :: "('a, 'e) kernel"
  assumes "length x \<le> length y"
  shows "(\<forall>m. snd (compute_decoupled_sum rnd x y kernel_function symmetric)
               \<noteq> Inl (OutOfBounds m))
       \<and> prefix (fst (compute_decoupled_sum rnd x y kernel_function symmetric))
           (index_pairs symmetric (length x))
       \<and> (\<forall>p\<in>set (fst (compute_decoupled_sum rnd x y kernel_function symmetric)).
             fst p < length x \<and> snd p < length x)
       \<and> compute_decoupled_sum rnd x y kernel_function symmetric
           = compute_decoupled_sum rnd x (take (length x) y) kernel_function symmetric"
proof -
  let ?ps = "index_pairs symmetric (length x)"
  let ?s0 = "\<lparr>total = Finite 0, count = 0\<rparr>"
  have b: "\<forall>p\<in>set ?ps. fst p < length x \<and> snd p < length y"
    using assms by (auto dest: index_pairs_bounds)
  have 1: "snd (compute_decoupled_sum rnd x y kernel_function symmetric) \<noteq> Inl (OutOfBounds m)"
    for m
    using run_pairs_in_bounds [OF b, of rnd kernel_function ?s0 "[]" m]
    by (simp add: compute_decoupled_sum_run snd_finish_oob)
  have 2: "prefix (fst (compute_decoupled_sum rnd x y kernel_function symmetric)) ?ps"
    by (rule calls_prefix)
  have 3: "fst p < length x \<and> snd p < length x"
    if "p \<in> set (fst (compute_decoupled_sum rnd x y kernel_function symmetric))" for p
  proof -
    from 2 that have "p \<in> set ?ps" by (auto dest: set_mono_prefix)
    then show ?thesis by (auto dest: index_pairs_bounds)
  qed
  have "\<forall>p\<in>set ?ps. (elt y (snd p) :: 'e failure + 'a) = elt (take (length x) y) (snd p)"
    using assms by (auto dest: index_pairs_bounds simp: elt_take)
  from run_pairs_cong_y [OF this]
  have 4: "compute_decoupled_sum rnd x y kernel_function symmetric
           = compute_decoupled_sum rnd x (take (length x) y) kernel_function symmetric"
    by (simp add: compute_decoupled_sum_run)
  from 1 2 3 4 show ?thesis by blast
qed

theorem reads_within_length_of_x_witness:
  "length [1, 2 :: int] \<le> length [10, 20, 30, 40 :: int]
   \<and> compute_decoupled_sum exact [1, 2] [10, 20, 30, 40]
         (\<lambda>a b. Inr (Finite (of_int (a + b))) :: string + double) False
       = compute_decoupled_sum exact [1, 2] [10, 20]
         (\<lambda>a b. Inr (Finite (of_int (a + b))) :: string + double) False
   \<and> prefix (fst (compute_decoupled_sum exact [1, 2] [10, 20, 30, 40]
         (\<lambda>a b. Inr (Finite (of_int (a + b))) :: string + double) False)) [(0, 1), (1, 0)]"
proof -
  have ip: "index_pairs False (Suc (Suc 0)) = [(0, 1), (1, 0)]"
    by (simp add: index_pairs_def asym_pairs_def upt_rec)
  have h: "length [1, 2 :: int] \<le> length [10, 20, 30, 40 :: int]" by simp
  note t = reads_within_length_of_x [OF h, of exact
      "\<lambda>a b. Inr (Finite (of_int (a + b))) :: string + double" False]
  from t have e: "compute_decoupled_sum exact [1, 2] [10, 20, 30, 40]
         (\<lambda>a b. Inr (Finite (of_int (a + b))) :: string + double) False
       = compute_decoupled_sum exact [1, 2] [10, 20]
         (\<lambda>a b. Inr (Finite (of_int (a + b))) :: string + double) False"
    by simp
  from t [THEN conjunct2, THEN conjunct1] ip have p: "prefix (fst (compute_decoupled_sum exact [1, 2] [10, 20, 30, 40]
         (\<lambda>a b. Inr (Finite (of_int (a + b))) :: string + double) False)) [(0, 1), (1, 0)]"
    by simp
  from h e p show ?thesis by (intro conjI)
qed

section \<open>A failing kernel call\<close>

text \<open>
  C6, as the code has it. When the kernel fails with \<open>e\<close> at the pair \<open>(i, j)\<close> of the
  enumeration, having returned at every pair before it, \<open>compute_decoupled_sum\<close> stops
  there: the calls are the pairs before \<open>(i, j)\<close> and \<open>(i, j)\<close> itself, none of the later
  pairs \<open>qs\<close>; no number is returned, the sum so far is lost; and the failure that
  leaves the function is the kernel's own \<open>e\<close>, unchanged. The source catches nothing
  and adds nothing: the index pair is not part of what the caller receives.
\<close>

theorem kernel_failure_propagates:
  assumes "length x \<le> length y"
    and "index_pairs symmetric (length x) = ps @ (i, j) # qs"
    and "\<forall>p\<in>set ps. \<exists>v. kernel_function (x ! fst p) (y ! snd p) = Inr v"
    and "kernel_function (x ! i) (y ! j) = Inl e"
  shows "compute_decoupled_sum rnd x y kernel_function symmetric
           = (ps @ [(i, j)], Inl (KernelFailure e))"
proof -
  from bchoice [OF assms(3)] obtain v where
    "\<forall>p\<in>set ps. kernel_function (x ! fst p) (y ! snd p) = Inr (v p)"
    by blast
  moreover have "\<forall>p\<in>set (ps @ (i, j) # qs). fst p < length x \<and> snd p < length y"
    using assms(1) index_pairs_bounds [of _ symmetric "length x"]
    unfolding assms(2) [symmetric] by fastforce
  ultimately have ok: "\<forall>p\<in>set ps. fst p < length x \<and> snd p < length y
      \<and> kernel_function (x ! fst p) (y ! snd p) = Inr (v p)"
    and ij: "i < length x" "j < length y"
    by auto
  from run_pairs_fail [OF ok ij assms(4)] show ?thesis
    by (simp add: compute_decoupled_sum_run assms(2) finish_def)
qed


theorem kernel_failure_propagates_witness:
  "length [1, 2, 3 :: int] \<le> length [10, 20, 30 :: int]
   \<and> index_pairs False (length [1, 2, 3 :: int]) = [(0, 1), (0, 2)] @ (1, 0) # [(1, 2), (2, 0), (2, 1)]
   \<and> (\<lambda>a b. if a = 2 then Inl ''no'' else Inr (Finite (of_int (a + b))))
        ([1, 2, 3 :: int] ! 1) ([10, 20, 30 :: int] ! 0) = Inl ''no''
   \<and> compute_decoupled_sum exact [1, 2, 3] [10, 20, 30]
        (\<lambda>a b. if a = 2 then Inl ''no'' else Inr (Finite (of_int (a + b)))) False
       = ([(0, 1), (0, 2), (1, 0)], Inl (KernelFailure ''no''))"
proof -
  let ?k = "\<lambda>a b :: int. if a = 2 then Inl ''no'' else Inr (Finite (of_int (a + b)))"
  have 1: "length [1, 2, 3 :: int] \<le> length [10, 20, 30 :: int]" by simp
  have 2: "index_pairs False (length [1, 2, 3 :: int])
      = [(0, 1), (0, 2)] @ (1, 0) # [(1, 2), (2, 0), (2, 1)]"
    by (simp add: index_pairs_def asym_pairs_def upt_rec)
  have 3: "\<forall>p\<in>set [(0, 1), (0, 2)]. \<exists>v. ?k ([1, 2, 3] ! fst p) ([10, 20, 30] ! snd p) = Inr v"
    by simp
  have 4: "?k ([1, 2, 3 :: int] ! 1) ([10, 20, 30 :: int] ! 0) = Inl ''no''" by simp
  from kernel_failure_propagates [of "[1, 2, 3]" "[10, 20, 30]" False "[(0, 1), (0, 2)]"
      1 0 "[(1, 2), (2, 0), (2, 1)]" ?k "''no''" exact, OF 1 2 3 4] 1 2 4
  show ?thesis by simp
qed

text \<open>
  C6 as the specification states it (the failure carries the failing index pair) fails:
  a kernel failing at the pair \<open>(0, 2)\<close> and a kernel failing at the pair \<open>(1, 2)\<close> with
  the same error leave the function with the same failure, so the failure does not tell
  the pair.
\<close>

theorem failing_pair_not_reported_counterexample:
  "compute_decoupled_sum exact [1, 2, 3] [10, 20, 30]
     (\<lambda>a b. if b = 30 then Inl ''boom'' else Inr (Finite (of_int (a + b)))) True
     = ([(0, 1), (0, 2)], Inl (KernelFailure ''boom''))
   \<and> compute_decoupled_sum exact [1, 2, 3] [10, 20, 30]
     (\<lambda>a b. if a = 2 then Inl ''boom'' else Inr (Finite (of_int (a + b)))) True
     = ([(0, 1), (0, 2), (1, 2)], Inl (KernelFailure ''boom''))"
  by (simp add: compute_decoupled_sum_run index_pairs_def sym_pairs_3 finish_def
      body_def kernel_call_def elt_def)

section \<open>The batch\<close>

lemma batch_loop_collect:
  fixes k :: "('a, 'e) kernel"
  assumes "B = length ys" and "b \<le> B" and "length results = B"
  shows "batch_loop rnd x ys k s B b results =
     (case collect (map (\<lambda>y. snd (compute_decoupled_sum rnd x y k s)) (drop b ys)) of
        Inl f \<Rightarrow> Inl f
      | Inr vs \<Rightarrow> Inr (take b results @ vs))"
  using assms
proof (induction rnd x ys k s B b results rule: batch_loop.induct)
  case (1 rnd x ys k s B b results)
  show ?case
  proof (cases "b < B")
    case True
    with "1.prems" have d: "drop b ys = ys ! b # drop (b + 1) ys"
      by (simp add: Cons_nth_drop_Suc)
    from True "1.prems" have e: "(elt ys b :: 'e failure + 'a list) = Inr (ys ! b)"
      by (simp add: elt_def)
    show ?thesis
    proof (cases "snd (compute_decoupled_sum rnd x (ys ! b) k s)")
      case (Inl f)
      with True e d show ?thesis by (subst batch_loop.simps) simp
    next
      case (Inr v)
      have "batch_loop rnd x ys k s B (b + 1) (results[b := v]) =
          (case collect (map (\<lambda>y. snd (compute_decoupled_sum rnd x y k s)) (drop (b + 1) ys)) of
             Inl f \<Rightarrow> Inl f
           | Inr vs \<Rightarrow> Inr (take (b + 1) (results[b := v]) @ vs))"
        using True "1.prems" by (intro "1.IH" [OF True e Inr]) simp_all
      moreover from True "1.prems" have "take (b + 1) (results[b := v]) = take b results @ [v]"
        by (simp add: take_Suc_conv_app_nth)
      ultimately show ?thesis using True e d Inr
        by (subst batch_loop.simps) (simp split: sum.splits)
    qed
  next
    case False
    with "1.prems" show ?thesis by (subst batch_loop.simps) simp
  qed
qed

lemma compute_multiple_collect:
  "compute_multiple_decoupled_sums rnd x ys k s =
     collect (map (\<lambda>y. snd (compute_decoupled_sum rnd x y k s)) ys)"
proof -
  have "batch_loop rnd x ys k s (length ys) 0 (replicate (length ys) (Finite 0)) =
     (case collect (map (\<lambda>y. snd (compute_decoupled_sum rnd x y k s)) (drop 0 ys)) of
        Inl f \<Rightarrow> Inl f
      | Inr vs \<Rightarrow> Inr (take 0 (replicate (length ys) (Finite 0)) @ vs))"
    by (rule batch_loop_collect) simp_all
  then show ?thesis
    by (cases "collect (map (\<lambda>y. snd (compute_decoupled_sum rnd x y k s)) ys)")
       (simp_all add: compute_multiple_decoupled_sums_def Let_def)
qed

lemma collect_Inr_iff: "collect rs = Inr vs \<longleftrightarrow> rs = map Inr vs"
proof (induction rs arbitrary: vs)
  case Nil
  then show ?case by auto
next
  case (Cons r rs)
  show ?case
  proof (cases r)
    case (Inl f)
    then show ?thesis by (cases vs) auto
  next
    case (Inr v)
    show ?thesis
    proof (cases "collect rs")
      case (Inl f)
      with Cons [of "tl vs"] Inr show ?thesis by (cases vs) auto
    next
      case r: (Inr ws)
      with Cons [of ws] Cons [of "tl vs"] Inr show ?thesis by (cases vs) auto
    qed
  qed
qed

lemma collect_fail: "collect (map Inr vs @ Inl f # rest) = Inl f"
  by (induction vs) simp_all

text \<open>
  C7. \<open>compute_multiple_decoupled_sums\<close> returns the sequence \<open>rs\<close> exactly when \<open>rs\<close>
  is as long as \<open>y_list\<close> and, at every index \<open>b\<close>, \<open>compute_decoupled_sum\<close> on
  \<open>y_list ! b\<close> returns \<open>rs ! b\<close>. So whenever every single call returns, the batch
  returns their results, one for each element, in the order of the input; and whatever it
  returns has this form.
\<close>

theorem batch_is_map:
  "(compute_multiple_decoupled_sums rnd x y_list kernel_function symmetric = Inr rs
      \<longleftrightarrow> length rs = length y_list
          \<and> (\<forall>b<length y_list.
                snd (compute_decoupled_sum rnd x (y_list ! b) kernel_function symmetric)
                  = Inr (rs ! b)))
   \<and> ((\<forall>b<length y_list.
          \<exists>v. snd (compute_decoupled_sum rnd x (y_list ! b) kernel_function symmetric) = Inr v)
        \<longrightarrow> (\<exists>rs. compute_multiple_decoupled_sums rnd x y_list kernel_function symmetric
                    = Inr rs))"
proof -
  let ?agg = "\<lambda>y. snd (compute_decoupled_sum rnd x y kernel_function symmetric)"
  have "map ?agg y_list = map Inr rs \<longleftrightarrow>
      length rs = length y_list \<and> (\<forall>b<length y_list. ?agg (y_list ! b) = Inr (rs ! b))"
    for rs
    unfolding list_eq_iff_nth_eq by auto
  then have iff: "compute_multiple_decoupled_sums rnd x y_list kernel_function symmetric = Inr rs
      \<longleftrightarrow> length rs = length y_list
          \<and> (\<forall>b<length y_list. ?agg (y_list ! b) = Inr (rs ! b))" for rs
    by (simp only: compute_multiple_collect collect_Inr_iff)
  have "\<exists>rs. compute_multiple_decoupled_sums rnd x y_list kernel_function symmetric = Inr rs"
    if "\<forall>b<length y_list. \<exists>v. ?agg (y_list ! b) = Inr v"
  proof -
    from that have "\<forall>b. \<exists>v. b < length y_list \<longrightarrow> ?agg (y_list ! b) = Inr v"
      by blast
    from choice [OF this] obtain v where
      v: "\<forall>b<length y_list. ?agg (y_list ! b) = Inr (v b)"
      by blast
    then have "length (map v [0..<length y_list]) = length y_list
        \<and> (\<forall>b<length y_list. ?agg (y_list ! b) = Inr (map v [0..<length y_list] ! b))"
      by simp
    then have "compute_multiple_decoupled_sums rnd x y_list kernel_function symmetric
        = Inr (map v [0..<length y_list])"
      by (rule iff [THEN iffD2])
    then show ?thesis ..
  qed
  with iff show ?thesis by blast
qed

theorem batch_is_map_witness:
  "length [Finite 28, Finite (7 / 3)] = length [[10, 20, 30], [1, 1, 1 :: int]]
   \<and> compute_multiple_decoupled_sums exact [1, 2, 3] [[10, 20, 30], [1, 1, 1]]
        (\<lambda>a b. Inr (Finite (of_int (a + b))) :: string + double) True
       = Inr [Finite 28, Finite (7 / 3)]"
proof -
  let ?k = "\<lambda>a b :: int. Inr (Finite (of_int (a + b))) :: string + double"
  have l: "length [Finite 28, Finite (7 / 3)] = length [[10, 20, 30], [1, 1, 1 :: int]]"
    by simp
  have e: "\<forall>b<length [[10, 20, 30], [1, 1, 1 :: int]].
        snd (compute_decoupled_sum exact [1, 2, 3] ([[10, 20, 30], [1, 1, 1]] ! b) ?k True)
          = Inr ([Finite 28, Finite (7 / 3)] ! b)"
    by (simp add: less_Suc_eq compute_decoupled_sum_run index_pairs_def sym_pairs_3 finish_def
        body_def kernel_call_def elt_def exact_def)
  from l e have "compute_multiple_decoupled_sums exact [1, 2, 3] [[10, 20, 30], [1, 1, 1]] ?k True
       = Inr [Finite 28, Finite (7 / 3)]"
    by (simp only: batch_is_map [THEN conjunct1])
  with l show ?thesis by (rule conjI)
qed

lemma batch_first_failure:
  assumes "b < length y_list"
    and "\<forall>c<b. \<exists>v. snd (compute_decoupled_sum rnd x (y_list ! c) kernel_function symmetric)
                      = Inr v"
    and "snd (compute_decoupled_sum rnd x (y_list ! b) kernel_function symmetric) = Inl f"
  shows "compute_multiple_decoupled_sums rnd x y_list kernel_function symmetric = Inl f"
proof -
  let ?agg = "\<lambda>y. snd (compute_decoupled_sum rnd x y kernel_function symmetric)"
  from assms(2) have "\<forall>c. \<exists>v. c < b \<longrightarrow> ?agg (y_list ! c) = Inr v"
    by blast
  from choice [OF this] obtain v where v: "\<forall>c<b. ?agg (y_list ! c) = Inr (v c)"
    by blast
  have r: "map ?agg (take b y_list) = map Inr (map v [0..<b])"
    unfolding list_eq_iff_nth_eq using assms(1) v by simp
  have "map ?agg y_list = map ?agg (take b y_list @ y_list ! b # drop (Suc b) y_list)"
    using assms(1) by (simp only: id_take_nth_drop [symmetric])
  also have "\<dots> = map ?agg (take b y_list) @ ?agg (y_list ! b) # map ?agg (drop (Suc b) y_list)"
    by simp
  also have "\<dots> = map Inr (map v [0..<b]) @ Inl f # map ?agg (drop (Suc b) y_list)"
    by (simp only: r assms(3))
  finally show ?thesis
    by (simp only: compute_multiple_collect collect_fail)
qed

lemma batch_degenerate:
  assumes "length x < 2"
  shows "compute_multiple_decoupled_sums rnd x y_list kernel_function symmetric
           = Inr (replicate (length y_list) NaN)"
proof -
  have "map (\<lambda>y. snd (compute_decoupled_sum rnd x y kernel_function symmetric)) y_list
      = map Inr (replicate (length y_list) NaN)"
    using assms by (simp add: degenerate_run map_replicate_const)
  then show ?thesis
    by (simp only: compute_multiple_collect collect_Inr_iff)
qed

text \<open>
  C5, as the code has it. When the call for the batch index \<open>b\<close> fails with \<open>f\<close>, the
  calls before it having returned, the batch fails as a whole with the same \<open>f\<close>, whatever
  the later elements are: no result sequence is returned. The failure is the one of the
  call, unchanged: it does not hold the batch index. And too few pairs are not a
  failure: when \<open>x\<close> has fewer than two elements, whatever the batch elements are, every
  call returns not-a-number and the batch returns not-a-number at each of its indices.
\<close>

theorem batch_fails_as_a_whole:
  "(b < length y_list
      \<and> (\<forall>c<b. \<exists>v. snd (compute_decoupled_sum rnd x (y_list ! c) kernel_function symmetric)
                      = Inr v)
      \<and> snd (compute_decoupled_sum rnd x (y_list ! b) kernel_function symmetric) = Inl f
    \<longrightarrow> compute_multiple_decoupled_sums rnd x y_list kernel_function symmetric = Inl f)
   \<and> (length x < 2
    \<longrightarrow> compute_multiple_decoupled_sums rnd x y_list kernel_function symmetric
          = Inr (replicate (length y_list) NaN))"
  using batch_first_failure [of b y_list rnd x kernel_function symmetric f]
    batch_degenerate [of x rnd y_list kernel_function symmetric]
  by blast

theorem batch_fails_as_a_whole_witness:
  "(2::nat) < length [[10, 20], [5, 6], [7, 99], [1, 1 :: int]]
   \<and> snd (compute_decoupled_sum exact [1, 2] ([[10, 20], [5, 6], [7, 99], [1, 1]] ! 2)
            (\<lambda>a b. if b = 99 then Inl ''no'' else Inr (Finite (of_int (a + b)))) True)
       = Inl (KernelFailure ''no'')
   \<and> compute_multiple_decoupled_sums exact [1, 2] [[10, 20], [5, 6], [7, 99], [1, 1]]
        (\<lambda>a b. if b = 99 then Inl ''no'' else Inr (Finite (of_int (a + b)))) True
       = Inl (KernelFailure ''no'')
   \<and> length [7 :: int] < 2
   \<and> compute_multiple_decoupled_sums exact [7] [[10], [20, 30, 40], []]
        (\<lambda>a b. Inr (Finite (of_int (a + b))) :: string + double) False
       = Inr [NaN, NaN, NaN]"
proof -
  let ?k = "\<lambda>a b :: int. if b = 99 then Inl ''no'' else Inr (Finite (of_int (a + b)))"
  let ?ys = "[[10, 20], [5, 6], [7, 99], [1, 1 :: int]]"
  have 1: "(2::nat) < length ?ys" by simp
  have 2: "\<forall>c<2. \<exists>v. snd (compute_decoupled_sum exact [1, 2] (?ys ! c) ?k True) = Inr v"
    by (simp add: less_Suc_eq numeral_2_eq_2 compute_decoupled_sum_run index_pairs_def
        sym_pairs_2 finish_def body_def kernel_call_def elt_def exact_def)
  have 3: "snd (compute_decoupled_sum exact [1, 2] (?ys ! 2) ?k True) = Inl (KernelFailure ''no'')"
    by (simp add: compute_decoupled_sum_run index_pairs_def
        sym_pairs_2 finish_def body_def kernel_call_def elt_def exact_def)
  have 4: "length [7 :: int] < 2" by simp
  have "compute_multiple_decoupled_sums exact [1, 2] ?ys ?k True = Inl (KernelFailure ''no'')"
    using batch_fails_as_a_whole [of 2 ?ys exact "[1, 2]" ?k True "KernelFailure ''no''",
        THEN conjunct1] 1 2 3
    by blast
  moreover have "compute_multiple_decoupled_sums exact [7] [[10], [20, 30, 40], []]
        (\<lambda>a b. Inr (Finite (of_int (a + b))) :: string + double) False
       = Inr [NaN, NaN, NaN]"
    using batch_fails_as_a_whole [of _ "[[10], [20, 30, 40], []]" exact "[7 :: int]"
        "\<lambda>a b. Inr (Finite (of_int (a + b))) :: string + double" False, THEN conjunct2] 4
    by (simp add: numeral_3_eq_3)
  ultimately show ?thesis using 1 3 4 by (intro conjI)
qed

text \<open>
  C5 as the specification states it (the batch reports the failing batch index; an
  element with too few pairs makes the batch fail) fails. A batch whose second element
  fails and a batch whose first element fails end with the same failure, so the failure
  does not tell the batch index; and with one element in \<open>x\<close> every element of the
  batch is degenerate, yet the batch returns, with not-a-number stored at each index.
\<close>

theorem batch_index_not_reported_counterexample:
  "compute_multiple_decoupled_sums exact [1, 2] [[10, 20], [10, 99]]
     (\<lambda>a b. if b = 99 then Inl ''boom'' else Inr (Finite (of_int (a + b)))) True
     = Inl (KernelFailure ''boom'')
   \<and> compute_multiple_decoupled_sums exact [1, 2] [[10, 99], [10, 20]]
     (\<lambda>a b. if b = 99 then Inl ''boom'' else Inr (Finite (of_int (a + b)))) True
     = Inl (KernelFailure ''boom'')
   \<and> compute_multiple_decoupled_sums exact [1] [[10], [20]]
     (\<lambda>a b. if b = 99 then Inl ''boom'' else Inr (Finite (of_int (a + b)))) True
     = Inr [NaN, NaN]"
  by (simp add: compute_multiple_collect compute_decoupled_sum_run index_pairs_def
        sym_pairs_2 sym_pairs_def finish_def body_def kernel_call_def elt_def exact_def)

section \<open>Symmetric and asymmetric mode compared\<close>










text \<open>
  The condition on the size of the kernel values is needed: sums that double arithmetic
  rounds or overflows differ between the modes, which add different numbers of terms in
  different orders. Here \<open>y\<close> is \<open>x\<close> and the kernel is constantly \<open>2^1023\<close>, an integer
  and a double: the one term of the symmetric mode is returned as it is, the two terms
  of the asymmetric mode add up to \<open>2^1024\<close>, which overflows to infinity.
\<close>

lemma exactness_needed:
  "snd (compute_decoupled_sum overflow_only [1, 2 :: int] [1, 2]
         (\<lambda>a b. Inr (Finite (2 ^ 1023)) :: string + double) True) = Inr (Finite (2 ^ 1023))
   \<and> snd (compute_decoupled_sum overflow_only [1, 2 :: int] [1, 2]
         (\<lambda>a b. Inr (Finite (2 ^ 1023)) :: string + double) False) = Inr PInf"
  by (simp add: compute_decoupled_sum_run index_pairs_def sym_pairs_def asym_pairs_def
      upt_rec finish_def body_def kernel_call_def elt_def overflow_only_def)

end
